theory Spec2Isabelle
  imports Complex_Main "HOL-Library.Monad_Syntax"
begin

section \<open>JavaScript values held by the grid\<close>

text \<open>
  The \<open>alive\<close> and \<open>nextAlive\<close> properties of a Cell hold a boolean, or
  \<open>undefined\<close> while the property has never been assigned (\<open>nextAlive\<close> is not
  declared by the class and only appears when the transition writes it).
\<close>

datatype jsval = JUndefined | JBool bool

text \<open>The truthiness test of \<open>c.alive ? 1 : 0\<close>.\<close>

fun truthy :: "jsval \<Rightarrow> bool" where
  "truthy JUndefined = False"
| "truthy (JBool b) = b"

text \<open>
  The option fields \<open>rows\<close> and \<open>columns\<close> are documented as \<open>number\<close> and may
  be absent. The numbers modelled are the integers and \<open>NaN\<close>; an absent field
  (\<open>undefined\<close>) is \<open>None\<close>. Fractional and infinite numbers are left out.
\<close>

datatype jsnum = NaN | Num int

text \<open>
  Methods that dereference a missing array element throw a TypeError; a result
  \<open>None\<close> stands for that thrown TypeError, the only error the class can raise.
\<close>

section \<open>Cell\<close>

text \<open>
  A Cell object is a record of its properties. The \<open>cells\<close> array of a Generation
  holds one object per position, each created by its own \<open>new Cell\<close>, so no two
  positions share an object and the array is a list of such records.
\<close>

record cell =
  gridX :: int
  gridY :: int
  alive :: jsval
  nextAlive :: jsval

text \<open>
  \<open>new Cell(gridX, gridY)\<close>; the third argument is the value that the call of
  \<open>Math.random()\<close> inside the constructor returns.
\<close>

definition new_Cell :: "int \<Rightarrow> int \<Rightarrow> real \<Rightarrow> cell" where
  "new_Cell x y r = \<lparr>gridX = x, gridY = y, alive = JBool (r > 0.5), nextAlive = JUndefined\<rparr>"

section \<open>Generation\<close>

record generation =
  columns :: int
  rows :: int
  cells :: "cell list"

record gen_options =
  opt_rows :: "jsnum option"
  opt_columns :: "jsnum option"

text \<open>\<open>if (v) { this.d = v }\<close>: the field keeps its value \<open>d\<close> unless \<open>v\<close> is truthy.\<close>

fun assign_if_truthy :: "jsnum option \<Rightarrow> int \<Rightarrow> int" where
  "assign_if_truthy (Some (Num n)) d = (if n \<noteq> 0 then n else d)"
| "assign_if_truthy (Some NaN) d = d"
| "assign_if_truthy None d = d"

text \<open>
  The constructor. Its argument is \<open>None\<close> when no options object is passed:
  destructuring \<open>undefined\<close> throws. The class field initialisers give
  \<open>columns = 50\<close>, \<open>rows = 50\<close> and \<open>cells = []\<close>.
\<close>

definition new_Generation :: "gen_options option \<Rightarrow> generation option" where
  "new_Generation options =
     (case options of
        None \<Rightarrow> None
      | Some opts \<Rightarrow>
          Some \<lparr>columns = assign_if_truthy (opt_columns opts) 50,
                rows = assign_if_truthy (opt_rows opts) 50,
                cells = []\<rparr>)"

text \<open>An option field that does not hold a negative number.\<close>

fun not_negative :: "jsnum option \<Rightarrow> bool" where
  "not_negative (Some (Num n)) = (0 \<le> n)"
| "not_negative (Some NaN) = True"
| "not_negative None = True"

text \<open>
  \<open>createGrid\<close>: the inner loop over \<open>x\<close> and the outer loop over \<open>y\<close>. The
  cell pushed at array position \<open>i\<close> receives the random draw \<open>rnd i\<close>.
\<close>

function createGrid_x :: "(nat \<Rightarrow> real) \<Rightarrow> generation \<Rightarrow> int \<Rightarrow> int \<Rightarrow> generation" where
  "createGrid_x rnd g y x =
     (if x < columns g
      then createGrid_x rnd
             (g\<lparr>cells := cells g @ [new_Cell x y (rnd (length (cells g)))]\<rparr>) y (x + 1)
      else g)"
  by pat_completeness auto
termination
  by (relation "measure (\<lambda>(rnd, g, y, x). nat (columns g - x))") auto

declare createGrid_x.simps [simp del]

function createGrid_y :: "(nat \<Rightarrow> real) \<Rightarrow> generation \<Rightarrow> int \<Rightarrow> generation" where
  "createGrid_y rnd g y =
     (if y < rows g then createGrid_y rnd (createGrid_x rnd g y 0) (y + 1) else g)"
  by pat_completeness auto
termination
proof (relation "measure (\<lambda>(rnd, g, y). nat (rows g - y))")
  show "wf (measure (\<lambda>(rnd, g, y). nat (rows g - y)))"
    by simp
next
  fix rnd :: "nat \<Rightarrow> real" and g :: generation and y :: int
  assume lt: "y < rows g"
  have keep: "rows (createGrid_x rnd h y' x) = rows h" for h y' x
  proof (induction rnd h y' x rule: createGrid_x.induct)
    case (1 rnd h y' x)
    show ?case
    proof (cases "x < columns h")
      case True
      from "1.IH" [OF True] show ?thesis
        by (subst createGrid_x.simps) (simp add: True)
    next
      case False
      then show ?thesis
        by (subst createGrid_x.simps) simp
    qed
  qed
  show "((rnd, createGrid_x rnd g y 0, y + 1), (rnd, g, y))
          \<in> measure (\<lambda>(rnd, g, y). nat (rows g - y))"
    using lt by (simp add: keep)
qed

declare createGrid_y.simps [simp del]

definition createGrid :: "(nat \<Rightarrow> real) \<Rightarrow> generation \<Rightarrow> generation" where
  "createGrid rnd g = createGrid_y rnd g 0"

definition gridToIndex :: "generation \<Rightarrow> int \<Rightarrow> int \<Rightarrow> int" where
  "gridToIndex g x y = x + y * columns g"

text \<open>
  \<open>this.cells[i]\<close> for an integer \<open>i\<close>: the element, or \<open>None\<close> where the
  array has none (JavaScript yields \<open>undefined\<close>).
\<close>

definition array_get :: "'a list \<Rightarrow> int \<Rightarrow> 'a option" where
  "array_get xs i = (if 0 \<le> i \<and> i < int (length xs) then Some (xs ! nat i) else None)"

definition isAlive :: "generation \<Rightarrow> int \<Rightarrow> int \<Rightarrow> int option" where
  "isAlive g x y =
     (if x < 0 \<or> x \<ge> columns g \<or> y < 0 \<or> y \<ge> rows g then Some 0
      else do {
        c \<leftarrow> array_get (cells g) (gridToIndex g x y);
        Some (if truthy (alive c) then 1 else 0)
      })"

text \<open>The sum \<open>countAlive\<close> of the eight calls, evaluated left to right.\<close>

definition countAlive :: "generation \<Rightarrow> int \<Rightarrow> int \<Rightarrow> int option" where
  "countAlive g x y = do {
     a \<leftarrow> isAlive g (x - 1) (y - 1);
     b \<leftarrow> isAlive g x (y - 1);
     c \<leftarrow> isAlive g (x + 1) (y - 1);
     d \<leftarrow> isAlive g (x - 1) y;
     e \<leftarrow> isAlive g (x + 1) y;
     f \<leftarrow> isAlive g (x - 1) (y + 1);
     h \<leftarrow> isAlive g x (y + 1);
     i \<leftarrow> isAlive g (x + 1) (y + 1);
     Some (a + b + c + d + e + f + h + i)
   }"

text \<open>The \<open>switch\<close> of the arrow function: the value stored in \<open>nextAlive\<close>.\<close>

definition nextAliveFor :: "int \<Rightarrow> jsval \<Rightarrow> jsval" where
  "nextAliveFor n a = (if n = 2 then a else if n = 3 then JBool True else JBool False)"

text \<open>The body of the double loop of \<open>updateNextGenCellsAlive\<close> at \<open>(x, y)\<close>.\<close>

definition setNextAlive :: "generation \<Rightarrow> int \<Rightarrow> int \<Rightarrow> generation option" where
  "setNextAlive g x y = do {
     n \<leftarrow> countAlive g x y;
     c \<leftarrow> array_get (cells g) (gridToIndex g x y);
     Some (g\<lparr>cells := (cells g)[nat (gridToIndex g x y) := c\<lparr>nextAlive := nextAliveFor n (alive c)\<rparr>]\<rparr>)
   }"

function updateNextGenCellsAlive_y :: "generation \<Rightarrow> int \<Rightarrow> int \<Rightarrow> generation option" where
  "updateNextGenCellsAlive_y g x y =
     (if y < rows g
      then (case setNextAlive g x y of
              None \<Rightarrow> None
            | Some g' \<Rightarrow> updateNextGenCellsAlive_y g' x (y + 1))
      else Some g)"
  by pat_completeness auto
termination
proof (relation "measure (\<lambda>(g, x, y). nat (rows g - y))")
  show "wf (measure (\<lambda>(g, x, y). nat (rows g - y)))"
    by simp
next
  fix g g' :: generation and x y :: int
  assume lt: "y < rows g" and step: "setNextAlive g x y = Some g'"
  from step have "rows g' = rows g"
    by (auto simp: setNextAlive_def split: bind_splits)
  with lt show "((g', x, y + 1), (g, x, y)) \<in> measure (\<lambda>(g, x, y). nat (rows g - y))"
    by simp
qed

declare updateNextGenCellsAlive_y.simps [simp del]

function updateNextGenCellsAlive_x :: "generation \<Rightarrow> int \<Rightarrow> generation option" where
  "updateNextGenCellsAlive_x g x =
     (if x < columns g
      then (case updateNextGenCellsAlive_y g x 0 of
              None \<Rightarrow> None
            | Some g' \<Rightarrow> updateNextGenCellsAlive_x g' (x + 1))
      else Some g)"
  by pat_completeness auto
termination
proof (relation "measure (\<lambda>(g, x). nat (columns g - x))")
  show "wf (measure (\<lambda>(g, x). nat (columns g - x)))"
    by simp
next
  fix g g' :: generation and x :: int
  assume lt: "x < columns g" and run: "updateNextGenCellsAlive_y g x 0 = Some g'"
  have keep: "updateNextGenCellsAlive_y h u v = Some h' \<Longrightarrow> columns h' = columns h" for h h' u v
  proof (induction h u v rule: updateNextGenCellsAlive_y.induct)
    case (1 h u v)
    show ?case
    proof (cases "v < rows h")
      case True
      from "1.prems" have "(case setNextAlive h u v of None \<Rightarrow> None
          | Some k \<Rightarrow> updateNextGenCellsAlive_y k u (v + 1)) = Some h'"
        by (subst (asm) updateNextGenCellsAlive_y.simps) (simp add: True)
      then obtain k where k: "setNextAlive h u v = Some k"
        and rest: "updateNextGenCellsAlive_y k u (v + 1) = Some h'"
        by (auto split: option.splits)
      from k have "columns k = columns h"
        by (auto simp: setNextAlive_def split: bind_splits)
      with "1.IH" [OF True k rest] show ?thesis by simp
    next
      case False
      with "1.prems" show ?thesis
        by (subst (asm) updateNextGenCellsAlive_y.simps) simp
    qed
  qed
  from lt keep [OF run]
  show "((g', x + 1), (g, x)) \<in> measure (\<lambda>(g, x). nat (columns g - x))"
    by simp
qed

declare updateNextGenCellsAlive_x.simps [simp del]

text \<open>\<open>this.cells.forEach((cell) => { cell.alive = cell.nextAlive })\<close>.\<close>

definition applyNextAlive :: "generation \<Rightarrow> generation" where
  "applyNextAlive g = g\<lparr>cells := map (\<lambda>c. c\<lparr>alive := nextAlive c\<rparr>) (cells g)\<rparr>"

definition updateNextGenCellsAlive :: "generation \<Rightarrow> generation option" where
  "updateNextGenCellsAlive g = do {
     g' \<leftarrow> updateNextGenCellsAlive_x g 0;
     Some (applyNextAlive g')
   }"

text \<open>The method \<open>next\<close>.\<close>

definition next_gen :: "(nat \<Rightarrow> real) \<Rightarrow> generation \<Rightarrow> generation option" where
  "next_gen rnd g =
     (if length (cells g) \<noteq> 0 then updateNextGenCellsAlive g else Some (createGrid rnd g))"

text \<open>
  The driver (\<open>Game.nextIteration\<close>) calls \<open>next\<close> once per iteration;
  \<open>advance_n n\<close> is \<open>n\<close> such calls in a row, stopping at the first one that throws.
\<close>

fun advance_n :: "nat \<Rightarrow> (nat \<Rightarrow> real) \<Rightarrow> generation \<Rightarrow> generation option" where
  "advance_n 0 rnd g = Some g"
| "advance_n (Suc n) rnd g =
     (case next_gen rnd g of None \<Rightarrow> None | Some g' \<Rightarrow> advance_n n rnd g')"

section \<open>Well-formed grids\<close>

text \<open>
  A populated grid has positive dimensions and exactly \<open>columns * rows\<close> cells.
  It is row-major when the cell at index \<open>i\<close> carries the coordinates
  \<open>(i mod columns, i div columns)\<close>, as \<open>createGrid\<close> builds it.
\<close>

definition populated :: "generation \<Rightarrow> bool" where
  "populated g \<longleftrightarrow>
     0 < columns g \<and> 0 < rows g \<and> int (length (cells g)) = columns g * rows g"

definition row_major :: "generation \<Rightarrow> bool" where
  "row_major g \<longleftrightarrow>
     map (\<lambda>c. (gridX c, gridY c)) (cells g) =
     map (\<lambda>i. (int i mod columns g, int i div columns g)) [0..<length (cells g)]"

section \<open>The transition as the specification words it\<close>

text \<open>
  The specification's \<open>neighborAliveCount\<close>: the number of alive cells among the
  eight Moore neighbours of \<open>(x, y)\<close>, where a position outside
  \<open>[0, columns) \<times> [0, rows)\<close> counts as dead and the cell at \<open>(x, y)\<close> is found
  at index \<open>x + y * columns\<close>.
\<close>

definition spec_alive :: "generation \<Rightarrow> int \<Rightarrow> int \<Rightarrow> int" where
  "spec_alive g x y =
     (if 0 \<le> x \<and> x < columns g \<and> 0 \<le> y \<and> y < rows g \<and>
         truthy (alive (cells g ! nat (x + y * columns g)))
      then 1 else 0)"

definition moore :: "(int \<times> int) list" where
  "moore = [(-1, -1), (0, -1), (1, -1), (-1, 0), (1, 0), (-1, 1), (0, 1), (1, 1)]"

definition spec_neighborAliveCount :: "generation \<Rightarrow> int \<Rightarrow> int \<Rightarrow> int" where
  "spec_neighborAliveCount g x y = (\<Sum>(dx, dy) \<leftarrow> moore. spec_alive g (x + dx) (y + dy))"

text \<open>The rule by neighbour-count buckets: 2 keeps, 3 makes alive, anything else kills.\<close>

definition spec_rule :: "int \<Rightarrow> jsval \<Rightarrow> jsval" where
  "spec_rule n a = (if n = 2 then a else if n = 3 then JBool True else JBool False)"

text \<open>
  One advance as a simultaneous update: every cell takes the rule's value for its own
  coordinates, all counts being read from the one prior generation \<open>g\<close>.
\<close>

definition spec_advance :: "generation \<Rightarrow> generation" where
  "spec_advance g =
     g\<lparr>cells := map (\<lambda>c. c\<lparr>alive := spec_rule (spec_neighborAliveCount g (gridX c) (gridY c)) (alive c)\<rparr>)
                    (cells g)\<rparr>"

section \<open>Intermediate states of the compute phase\<close>

text \<open>
  \<open>target g i\<close> is the value the compute phase stores in \<open>nextAlive\<close> of the cell
  at index \<open>i\<close>, and \<open>mark g P\<close> is the grid \<open>g\<close> in which exactly the cells
  with index in \<open>P\<close> have received it.
\<close>

definition target :: "generation \<Rightarrow> nat \<Rightarrow> jsval" where
  "target g i =
     nextAliveFor (spec_neighborAliveCount g (int i mod columns g) (int i div columns g))
       (alive (cells g ! i))"

definition mark :: "generation \<Rightarrow> nat set \<Rightarrow> generation" where
  "mark g P =
     g\<lparr>cells := map (\<lambda>i. if i \<in> P then (cells g ! i)\<lparr>nextAlive := target g i\<rparr> else cells g ! i)
                    [0..<length (cells g)]\<rparr>"

text \<open>The indices the inner loop visits for the column \<open>x\<close>.\<close>

definition column_indices :: "generation \<Rightarrow> int \<Rightarrow> nat set" where
  "column_indices g x = (\<lambda>v. nat (gridToIndex g x v)) ` {0..<rows g}"

section \<open>Manually seeded grids and options\<close>

text \<open>
  A grid of the given dimensions whose cells, in array order, carry the given alive
  values and the row-major coordinates.
\<close>

definition seeded :: "int \<Rightarrow> int \<Rightarrow> bool list \<Rightarrow> generation" where
  "seeded c r bs =
     \<lparr>columns = c, rows = r,
      cells = map (\<lambda>(i, b). \<lparr>gridX = int i mod c, gridY = int i div c,
                              alive = JBool b, nextAlive = JUndefined\<rparr>)
                  (enumerate 0 bs)\<rparr>"

definition blinker :: generation where
  "blinker = seeded 3 3 [False, False, False, True, True, True, False, False, False]"

text \<open>
  The blinker pattern on cells that differ from those of \<open>blinker\<close> in every other field.
\<close>

definition blinker_reseeded :: generation where
  "blinker_reseeded =
     \<lparr>columns = 3, rows = 3,
      cells = map (\<lambda>b. \<lparr>gridX = 0, gridY = 0, alive = JBool b, nextAlive = JBool True\<rparr>)
                [False, False, False, True, True, True, False, False, False]\<rparr>"

text \<open>A 2 by 3 grid of dead cells.\<close>

definition dead_grid :: generation where
  "dead_grid = seeded 2 3 [False, False, False, False, False, False]"

text \<open>Options for a grid of 3 columns and 2 rows, and the Generation built from them.\<close>

definition small_options :: gen_options where
  "small_options = \<lparr>opt_rows = Some (Num 2), opt_columns = Some (Num 3)\<rparr>"

definition small_empty :: generation where
  "small_empty = \<lparr>columns = 3, rows = 2, cells = []\<rparr>"

text \<open>Options without \<open>rows\<close> and with \<open>columns\<close> 0.\<close>

definition falsy_options :: gen_options where
  "falsy_options = \<lparr>opt_rows = None, opt_columns = Some (Num 0)\<rparr>"


section \<open>Index arithmetic\<close>

lemma index_bounds:
  fixes x y c r :: int
  assumes "0 \<le> x" "x < c" "0 \<le> y" "y < r"
  shows "0 \<le> x + y * c" and "x + y * c < c * r"
proof -
  from assms show "0 \<le> x + y * c" by simp
  have "y + 1 \<le> r" using assms by simp
  then have "(y + 1) * c \<le> r * c"
    using assms by (intro mult_right_mono) auto
  then show "x + y * c < c * r"
    using assms by (simp add: algebra_simps)
qed

lemma index_mod:
  fixes x y c :: int
  assumes "0 \<le> x" "x < c"
  shows "(x + y * c) mod c = x" and "(x + y * c) div c = y"
  using assms by simp_all

lemma div_bound:
  fixes i c r :: int
  assumes c: "0 < c" and i: "i < c * r"
  shows "i div c < r"
proof (rule ccontr)
  assume "\<not> i div c < r"
  then have "r \<le> i div c" by simp
  then have "r * c \<le> (i div c) * c"
    using c by (intro mult_right_mono) auto
  moreover have "(i div c) * c \<le> i"
  proof -
    have "i = (i div c) * c + i mod c" by simp
    moreover have "0 \<le> i mod c" using c by simp
    ultimately show ?thesis by linarith
  qed
  ultimately show False using i by (simp add: mult.commute)
qed

lemma index_onto:
  fixes c r :: int
  assumes c: "0 < c" and i: "int i < c * r"
  shows "0 \<le> int i mod c" and "int i mod c < c" and "0 \<le> int i div c" and "int i div c < r"
    and "nat (int i mod c + (int i div c) * c) = i"
proof -
  show "0 \<le> int i mod c" "int i mod c < c" using c by simp_all
  show "0 \<le> int i div c" using c by (simp add: pos_imp_zdiv_nonneg_iff)
  show "int i div c < r" using c i by (rule div_bound)
  have "int i mod c + (int i div c) * c = int i" by simp
  then show "nat (int i mod c + (int i div c) * c) = i" by simp
qed

lemma populated_index:
  assumes "populated g" "0 \<le> x" "x < columns g" "0 \<le> y" "y < rows g"
  shows "0 \<le> gridToIndex g x y" and "gridToIndex g x y < int (length (cells g))"
    and "nat (gridToIndex g x y) < length (cells g)"
proof -
  from assms show a: "0 \<le> gridToIndex g x y"
    unfolding gridToIndex_def by (intro index_bounds(1)) auto
  from assms show b: "gridToIndex g x y < int (length (cells g))"
    unfolding gridToIndex_def populated_def using index_bounds(2) [of x "columns g" y "rows g"] by simp
  from a b show "nat (gridToIndex g x y) < length (cells g)" by simp
qed

lemma isAlive_populated:
  assumes "populated g"
  shows "isAlive g x y = Some (spec_alive g x y)"
proof (cases "0 \<le> x \<and> x < columns g \<and> 0 \<le> y \<and> y < rows g")
  case True
  with assms have "0 \<le> gridToIndex g x y" "gridToIndex g x y < int (length (cells g))"
    by (simp_all add: populated_index)
  with True show ?thesis
    by (simp add: isAlive_def spec_alive_def array_get_def gridToIndex_def)
next
  case False
  then show ?thesis
    by (auto simp: isAlive_def spec_alive_def)
qed

lemma countAlive_populated:
  assumes "populated g"
  shows "countAlive g x y = Some (spec_neighborAliveCount g x y)"
  by (simp add: countAlive_def isAlive_populated [OF assms] spec_neighborAliveCount_def moore_def)

lemma mark_empty: "mark g {} = g"
  by (simp add: mark_def map_nth)

lemma mark_frame [simp]:
  "columns (mark g P) = columns g" "rows (mark g P) = rows g"
  "length (cells (mark g P)) = length (cells g)"
  by (simp_all add: mark_def)

lemma populated_mark [simp]: "populated (mark g P) = populated g"
  by (simp add: populated_def)

lemma alive_mark:
  "i < length (cells g) \<Longrightarrow> alive (cells (mark g P) ! i) = alive (cells g ! i)"
  by (simp add: mark_def)

lemma spec_alive_mark:
  assumes "populated g"
  shows "spec_alive (mark g P) x y = spec_alive g x y"
proof (cases "0 \<le> x \<and> x < columns g \<and> 0 \<le> y \<and> y < rows g")
  case True
  with assms have "nat (x + y * columns g) < length (cells g)"
    using populated_index(3) [of g x y] by (simp add: gridToIndex_def)
  then show ?thesis
    by (simp add: spec_alive_def alive_mark)
next
  case False
  then show ?thesis by (auto simp: spec_alive_def)
qed

lemma count_mark:
  assumes "populated g"
  shows "spec_neighborAliveCount (mark g P) x y = spec_neighborAliveCount g x y"
  by (simp add: spec_neighborAliveCount_def spec_alive_mark [OF assms])

lemma setNextAlive_mark:
  assumes pop: "populated g" and b: "0 \<le> x" "x < columns g" "0 \<le> y" "y < rows g"
  shows "setNextAlive (mark g P) x y = Some (mark g (insert (nat (gridToIndex g x y)) P))"
proof -
  let ?k = "nat (gridToIndex g x y)"
  from pop b have k: "?k < length (cells g)" and k0: "0 \<le> gridToIndex g x y"
    by (simp_all add: populated_index)
  have idx: "gridToIndex (mark g P) x y = gridToIndex g x y"
    by (simp add: gridToIndex_def)
  from b have km: "gridToIndex g x y mod columns g = x" "gridToIndex g x y div columns g = y"
    by (simp_all add: gridToIndex_def)
  have cnt: "countAlive (mark g P) x y = Some (spec_neighborAliveCount g x y)"
    using pop by (simp add: countAlive_populated count_mark)
  have get: "array_get (cells (mark g P)) (gridToIndex g x y) = Some (cells (mark g P) ! ?k)"
    using k k0 by (simp add: array_get_def)
  have tgt: "nextAliveFor (spec_neighborAliveCount g x y) (alive (cells (mark g P) ! ?k)) = target g ?k"
    using k k0 by (simp add: target_def km alive_mark)
  have "(cells (mark g P))[?k := (cells (mark g P) ! ?k)\<lparr>nextAlive := target g ?k\<rparr>]
        = cells (mark g (insert ?k P))"
    using k by (intro nth_equalityI) (auto simp: mark_def nth_list_update)
  then show ?thesis
    by (simp add: setNextAlive_def cnt idx get tgt)
qed

lemma update_y_mark:
  assumes pop: "populated g" and bx: "0 \<le> x" "x < columns g" and y0: "0 \<le> y"
  shows "updateNextGenCellsAlive_y (mark g P) x y =
           Some (mark g (P \<union> (\<lambda>v. nat (gridToIndex g x v)) ` {y..<rows g}))"
  using y0
proof (induction "nat (rows g - y)" arbitrary: y P)
  case 0
  then have "\<not> y < rows g" by simp
  then show ?case
    by (subst updateNextGenCellsAlive_y.simps) simp
next
  case (Suc n)
  then have lt: "y < rows g" by linarith
  from Suc.hyps(2) have n: "n = nat (rows g - (y + 1))" by linarith
  have step: "setNextAlive (mark g P) x y = Some (mark g (insert (nat (gridToIndex g x y)) P))"
    using pop bx Suc.prems lt by (rule setNextAlive_mark)
  have split: "{y..<rows g} = insert y {y + 1..<rows g}"
    using lt by auto
  have "updateNextGenCellsAlive_y (mark g (insert (nat (gridToIndex g x y)) P)) x (y + 1) =
          Some (mark g (insert (nat (gridToIndex g x y)) P
                  \<union> (\<lambda>v. nat (gridToIndex g x v)) ` {y + 1..<rows g}))"
    using Suc.hyps(1) [OF n] Suc.prems by simp
  then show ?case
    by (subst updateNextGenCellsAlive_y.simps) (simp add: lt step split)
qed

lemma update_x_mark:
  assumes pop: "populated g" and bx: "0 \<le> x"
  shows "updateNextGenCellsAlive_x (mark g P) x =
           Some (mark g (P \<union> (\<Union>u \<in> {x..<columns g}. column_indices g u)))"
  using bx
proof (induction "nat (columns g - x)" arbitrary: x P)
  case 0
  then have "\<not> x < columns g" by simp
  then show ?case
    by (subst updateNextGenCellsAlive_x.simps) simp
next
  case (Suc n)
  then have lt: "x < columns g" by linarith
  from Suc.hyps(2) have n: "n = nat (columns g - (x + 1))" by linarith
  have col: "updateNextGenCellsAlive_y (mark g P) x 0 = Some (mark g (P \<union> column_indices g x))"
    using update_y_mark [OF pop Suc.prems lt, of 0 P] by (simp add: column_indices_def)
  have split: "{x..<columns g} = insert x {x + 1..<columns g}"
    using lt by auto
  have "updateNextGenCellsAlive_x (mark g (P \<union> column_indices g x)) (x + 1) =
          Some (mark g (P \<union> column_indices g x
                  \<union> (\<Union>u \<in> {x + 1..<columns g}. column_indices g u)))"
    using Suc.hyps(1) [OF n] Suc.prems by simp
  then show ?case
    by (subst updateNextGenCellsAlive_x.simps) (simp add: lt col split Un_assoc)
qed

lemma all_indices:
  assumes pop: "populated g" and i: "i < length (cells g)"
  shows "i \<in> (\<Union>u \<in> {0..<columns g}. column_indices g u)"
proof -
  from pop i have c: "0 < columns g" and ii: "int i < columns g * rows g"
    by (simp_all add: populated_def)
  note o = index_onto [OF c ii]
  have "i = nat (gridToIndex g (int i mod columns g) (int i div columns g))"
    using o(5) by (simp add: gridToIndex_def)
  with o(1-4) show ?thesis
    unfolding column_indices_def by (intro UN_I [of "int i mod columns g"]) auto
qed

lemma compute_phase:
  assumes pop: "populated g"
  shows "updateNextGenCellsAlive_x g 0 =
           Some (g\<lparr>cells := map (\<lambda>i. (cells g ! i)\<lparr>nextAlive := target g i\<rparr>) [0..<length (cells g)]\<rparr>)"
proof -
  let ?S = "\<Union>u \<in> {0..<columns g}. column_indices g u"
  have "updateNextGenCellsAlive_x (mark g {}) 0 = Some (mark g ({} \<union> ?S))"
    using pop by (intro update_x_mark) simp_all
  moreover have "mark g ({} \<union> ?S) =
      g\<lparr>cells := map (\<lambda>i. (cells g ! i)\<lparr>nextAlive := target g i\<rparr>) [0..<length (cells g)]\<rparr>"
    using all_indices [OF pop] by (simp add: mark_def)
  ultimately show ?thesis by (simp add: mark_empty)
qed

lemma update_populated:
  assumes pop: "populated g"
  shows "updateNextGenCellsAlive g =
           Some (g\<lparr>cells := map (\<lambda>i. (cells g ! i)\<lparr>alive := target g i, nextAlive := target g i\<rparr>)
                                   [0..<length (cells g)]\<rparr>)"
  by (simp add: updateNextGenCellsAlive_def compute_phase [OF pop] applyNextAlive_def)

section \<open>One advance of a populated grid\<close>

lemma populated_nonempty:
  assumes "populated g"
  shows "length (cells g) \<noteq> 0"
proof -
  from assms have "0 < columns g * rows g"
    by (simp add: populated_def)
  with assms show ?thesis
    by (auto simp: populated_def)
qed

lemma next_gen_populated:
  assumes pop: "populated g"
  shows "next_gen rnd g =
           Some (g\<lparr>cells := map (\<lambda>i. (cells g ! i)\<lparr>alive := target g i, nextAlive := target g i\<rparr>)
                                   [0..<length (cells g)]\<rparr>)"
  using populated_nonempty [OF pop] by (simp add: next_gen_def update_populated [OF pop])

lemma target_at:
  assumes "populated g" "0 \<le> x" "x < columns g" "0 \<le> y" "y < rows g"
  shows "target g (nat (gridToIndex g x y)) =
           nextAliveFor (spec_neighborAliveCount g x y) (alive (cells g ! nat (gridToIndex g x y)))"
proof -
  from assms have "0 \<le> gridToIndex g x y"
    by (simp add: populated_index)
  moreover from assms have "gridToIndex g x y mod columns g = x" "gridToIndex g x y div columns g = y"
    by (simp_all add: gridToIndex_def)
  ultimately show ?thesis
    by (simp add: target_def)
qed

section \<open>The transition rule\<close>

text \<open>
  C1. On a populated grid, one call of \<open>next\<close> returns normally, and for every cell
  \<open>(x, y)\<close> of the grid the new \<open>alive\<close> value of the cell at index
  \<open>x + y * columns\<close> is determined by the number \<open>n\<close> of alive cells among the eight
  Moore neighbours of \<open>(x, y)\<close> in the prior grid, \<open>spec_neighborAliveCount\<close>: it is
  the cell's prior value when \<open>n\<close> is 2, \<open>true\<close> when \<open>n\<close> is 3, and \<open>false\<close> for
  every other \<open>n\<close>. The count the code takes, \<open>countAlive\<close>, is that number.
\<close>

theorem next_applies_rule:
  assumes "populated g" and "0 \<le> x" and "x < columns g" and "0 \<le> y" and "y < rows g"
  shows "\<exists>g'. next_gen rnd g = Some g' \<and>
           countAlive g x y = Some (spec_neighborAliveCount g x y) \<and>
           alive (cells g' ! nat (x + y * columns g)) =
             (if spec_neighborAliveCount g x y = 2 then alive (cells g ! nat (x + y * columns g))
              else if spec_neighborAliveCount g x y = 3 then JBool True
              else JBool False)"
proof -
  let ?k = "nat (gridToIndex g x y)"
  let ?g' = "g\<lparr>cells := map (\<lambda>i. (cells g ! i)\<lparr>alive := target g i, nextAlive := target g i\<rparr>)
                                   [0..<length (cells g)]\<rparr>"
  from assms have k: "?k < length (cells g)"
    by (simp add: populated_index)
  have n: "next_gen rnd g = Some ?g'"
    using assms(1) by (rule next_gen_populated)
  have c: "countAlive g x y = Some (spec_neighborAliveCount g x y)"
    using assms(1) by (rule countAlive_populated)
  have "alive (cells ?g' ! ?k) = target g ?k"
    using k by simp
  with target_at [OF assms]
  have a: "alive (cells ?g' ! nat (x + y * columns g)) =
             (if spec_neighborAliveCount g x y = 2 then alive (cells g ! nat (x + y * columns g))
              else if spec_neighborAliveCount g x y = 3 then JBool True
              else JBool False)"
    by (simp add: nextAliveFor_def gridToIndex_def)
  from n c a show ?thesis
    by (intro exI [of _ ?g'] conjI)
qed

text \<open>
  The middle cell of the top row of the horizontal blinker is dead and has three alive
  neighbours; after one advance it is alive.
\<close>

theorem next_applies_rule_witness:
  "populated blinker \<and> (0::int) \<le> 1 \<and> 1 < columns blinker \<and> (0::int) \<le> 0 \<and> 0 < rows blinker \<and>
   spec_neighborAliveCount blinker 1 0 = 3 \<and> countAlive blinker 1 0 = Some 3 \<and>
   alive (cells blinker ! 1) = JBool False \<and>
   (\<exists>g'. next_gen (\<lambda>i. 0) blinker = Some g' \<and> alive (cells g' ! 1) = JBool True)"
proof -
  have p: "populated blinker"
    by (simp add: populated_def blinker_def seeded_def)
  have c: "1 < columns blinker" and r: "0 < rows blinker"
    by (simp_all add: blinker_def seeded_def)
  have s: "spec_neighborAliveCount blinker 1 0 = 3"
    unfolding blinker_def by code_simp
  have b: "alive (cells blinker ! 1) = JBool False"
    unfolding blinker_def by code_simp
  have k: "nat (1 + 0 * columns blinker) = 1"
    by simp
  have z: "(0::int) \<le> 1" "(0::int) \<le> 0"
    by simp_all
  from next_applies_rule [OF p z(1) c z(2) r, of "\<lambda>i. 0"]
  obtain g' where n: "next_gen (\<lambda>i. 0) blinker = Some g'"
    and ca: "countAlive blinker 1 0 = Some (spec_neighborAliveCount blinker 1 0)"
    and a: "alive (cells g' ! nat (1 + 0 * columns blinker)) =
             (if spec_neighborAliveCount blinker 1 0 = 2
              then alive (cells blinker ! nat (1 + 0 * columns blinker))
              else if spec_neighborAliveCount blinker 1 0 = 3 then JBool True
              else JBool False)"
    by (elim exE conjE)
  from a have a': "alive (cells g' ! 1) = JBool True"
    by (simp only: k s) simp
  from n a' have "\<exists>g'. next_gen (\<lambda>i. 0) blinker = Some g' \<and> alive (cells g' ! 1) = JBool True"
    by blast
  with p c r s b ca show ?thesis
    by simp
qed

lemma next_gen_keeps_populated:
  assumes "populated g" "next_gen rnd g = Some g'"
  shows "populated g'"
  using assms by (auto simp: next_gen_populated populated_def)

lemma spec_alive_cong:
  assumes pop: "populated g1" and c: "columns g2 = columns g1" and r: "rows g2 = rows g1"
    and a: "map alive (cells g2) = map alive (cells g1)"
  shows "spec_alive g2 x y = spec_alive g1 x y"
proof (cases "0 \<le> x \<and> x < columns g1 \<and> 0 \<le> y \<and> y < rows g1")
  case True
  let ?k = "nat (x + y * columns g1)"
  from pop True have k: "?k < length (cells g1)"
    using populated_index(3) [of g1 x y] by (simp add: gridToIndex_def)
  from a have len: "length (cells g2) = length (cells g1)"
    by (rule map_eq_imp_length_eq)
  have "alive (cells g2 ! ?k) = map alive (cells g2) ! ?k"
    using k len by simp
  also have "\<dots> = alive (cells g1 ! ?k)"
    using k by (simp add: a)
  finally show ?thesis
    by (simp add: spec_alive_def c r)
next
  case False
  then show ?thesis
    by (auto simp: spec_alive_def c r)
qed

lemma target_cong:
  assumes pop: "populated g1" and c: "columns g2 = columns g1" and r: "rows g2 = rows g1"
    and a: "map alive (cells g2) = map alive (cells g1)" and i: "i < length (cells g1)"
  shows "target g2 i = target g1 i"
proof -
  from a have len: "length (cells g2) = length (cells g1)"
    by (rule map_eq_imp_length_eq)
  have "alive (cells g2 ! i) = map alive (cells g2) ! i"
    using i len by simp
  also have "\<dots> = alive (cells g1 ! i)"
    using i by (simp add: a)
  finally show ?thesis
    by (simp add: target_def spec_neighborAliveCount_def spec_alive_cong [OF pop c r a] c)
qed

lemma next_gen_pattern:
  assumes pop: "populated g"
  shows "\<exists>g'. next_gen rnd g = Some g' \<and> columns g' = columns g \<and> rows g' = rows g \<and>
           map alive (cells g') = map (target g) [0..<length (cells g)]"
  by (simp add: next_gen_populated [OF pop])

section \<open>Determinism\<close>

text \<open>
  C6. Two populated grids of the same dimensions whose cells carry the same alive values,
  position by position, both advance without error and carry the same alive values
  afterwards, whatever their cells' \<open>nextAlive\<close> fields and coordinates held before.
\<close>

theorem next_deterministic:
  assumes pop: "populated g1" and c: "columns g2 = columns g1" and r: "rows g2 = rows g1"
    and a: "map alive (cells g2) = map alive (cells g1)"
  shows "\<exists>h1 h2. next_gen r1 g1 = Some h1 \<and> next_gen r2 g2 = Some h2 \<and>
           map alive (cells h1) = map alive (cells h2)"
proof -
  from a have len: "length (cells g2) = length (cells g1)"
    by (rule map_eq_imp_length_eq)
  with pop c r have pop2: "populated g2"
    by (simp add: populated_def)
  obtain h1 where h1: "next_gen r1 g1 = Some h1"
    and p1: "map alive (cells h1) = map (target g1) [0..<length (cells g1)]"
    using next_gen_pattern [OF pop] by blast
  obtain h2 where h2: "next_gen r2 g2 = Some h2"
    and p2: "map alive (cells h2) = map (target g2) [0..<length (cells g2)]"
    using next_gen_pattern [OF pop2] by blast
  have "map (target g2) [0..<length (cells g1)] = map (target g1) [0..<length (cells g1)]"
    using target_cong [OF pop c r a] by simp
  with h1 h2 p1 p2 len show ?thesis
    by simp
qed

text \<open>The blinker and its reseeded copy advance to the same pattern.\<close>

theorem next_deterministic_witness:
  "populated blinker \<and> columns blinker_reseeded = columns blinker \<and>
   rows blinker_reseeded = rows blinker \<and>
   map alive (cells blinker_reseeded) = map alive (cells blinker) \<and>
   (\<exists>h1 h2. next_gen (\<lambda>i. 0) blinker = Some h1 \<and> next_gen (\<lambda>i. 1) blinker_reseeded = Some h2 \<and>
      map alive (cells h1) = map alive (cells h2))"
proof -
  have p: "populated blinker"
    by (simp add: populated_def blinker_def seeded_def)
  have c: "columns blinker_reseeded = columns blinker"
    and r: "rows blinker_reseeded = rows blinker"
    and a: "map alive (cells blinker_reseeded) = map alive (cells blinker)"
    by (simp_all add: blinker_def seeded_def blinker_reseeded_def)
  show ?thesis
    using next_deterministic [OF p c r a, of "\<lambda>i. 0" "\<lambda>i. 1"] p c r a by simp
qed

section \<open>The blinker\<close>

lemma blinker_next:
  "map_option (\<lambda>g. map alive (cells g)) (next_gen rnd blinker) =
     Some (map JBool [False, True, False, False, True, False, False, True, False])"
  unfolding blinker_def by code_simp

text \<open>
  C7. The cell \<open>(x, y)\<close> of a 3 by 3 grid is the array element \<open>x + 3 * y\<close>, so the
  horizontal triplet \<open>(0,1), (1,1), (2,1)\<close> is the elements 3, 4, 5 and the vertical
  triplet \<open>(1,0), (1,1), (1,2)\<close> the elements 1, 4, 7. Every 3 by 3 grid in which exactly
  the horizontal triplet is alive advances, without error, to the grid in which exactly
  the vertical triplet is alive.
\<close>

theorem blinker_turns:
  assumes c: "columns g = 3" and r: "rows g = 3"
    and a: "map alive (cells g) = map JBool [False, False, False, True, True, True, False, False, False]"
  shows "\<exists>g'. next_gen rnd g = Some g' \<and> columns g' = 3 \<and> rows g' = 3 \<and>
           map alive (cells g') = map JBool [False, True, False, False, True, False, False, True, False]"
proof -
  have p: "populated blinker"
    by (simp add: populated_def blinker_def seeded_def)
  have cb: "columns g = columns blinker" and rb: "rows g = rows blinker"
    and ab: "map alive (cells g) = map alive (cells blinker)"
    by (simp_all add: c r a blinker_def seeded_def)
  from ab have len: "length (cells g) = length (cells blinker)"
    by (rule map_eq_imp_length_eq)
  with p cb rb have pg: "populated g"
    by (simp add: populated_def)
  obtain g' where g': "next_gen rnd g = Some g'" and d: "columns g' = columns g" "rows g' = rows g"
    and pat: "map alive (cells g') = map (target g) [0..<length (cells g)]"
    using next_gen_pattern [OF pg] by blast
  obtain b' where b': "next_gen rnd blinker = Some b'"
    and patb: "map alive (cells b') = map (target blinker) [0..<length (cells blinker)]"
    using next_gen_pattern [OF p] by blast
  have "map (target g) [0..<length (cells blinker)] = map (target blinker) [0..<length (cells blinker)]"
    using target_cong [OF p cb rb ab] by simp
  with pat patb len have "map alive (cells g') = map alive (cells b')"
    by simp
  also have "\<dots> = map JBool [False, True, False, False, True, False, False, True, False]"
    using blinker_next [of rnd] b' by simp
  finally show ?thesis
    using g' d c r by simp
qed

text \<open>The seeded blinker is such a grid.\<close>

theorem blinker_turns_witness:
  "columns blinker = 3 \<and> rows blinker = 3 \<and>
   map alive (cells blinker) = map JBool [False, False, False, True, True, True, False, False, False] \<and>
   (\<exists>g'. next_gen (\<lambda>i. 0) blinker = Some g' \<and> columns g' = 3 \<and> rows g' = 3 \<and>
      map alive (cells g') = map JBool [False, True, False, False, True, False, False, True, False])"
proof -
  have c: "columns blinker = 3" and r: "rows blinker = 3"
    and a: "map alive (cells blinker) = map JBool [False, False, False, True, True, True, False, False, False]"
    by (simp_all add: blinker_def seeded_def)
  show ?thesis
    using blinker_turns [OF c r a, of "\<lambda>i. 0"] c r a by simp
qed

section \<open>Frame of an advance\<close>

text \<open>
  C9. One advance of a populated grid returns normally and leaves the dimensions, the
  number of cells and, position by position, the coordinates of every cell as they were:
  each cell of the result is the cell at the same position before, with only its
  \<open>alive\<close> and \<open>nextAlive\<close> fields written.
\<close>

theorem next_frame:
  assumes pop: "populated g"
  shows "\<exists>g'. next_gen rnd g = Some g' \<and> columns g' = columns g \<and> rows g' = rows g \<and>
           length (cells g') = length (cells g) \<and>
           map gridX (cells g') = map gridX (cells g) \<and>
           map gridY (cells g') = map gridY (cells g) \<and>
           (\<forall>i < length (cells g). \<exists>a b. cells g' ! i = (cells g ! i)\<lparr>alive := a, nextAlive := b\<rparr>)"
proof -
  let ?f = "\<lambda>i. (cells g ! i)\<lparr>alive := target g i, nextAlive := target g i\<rparr>"
  let ?g' = "g\<lparr>cells := map ?f [0..<length (cells g)]\<rparr>"
  have n: "next_gen rnd g = Some ?g'"
    using pop by (rule next_gen_populated)
  have x: "map gridX (cells ?g') = map gridX (cells g)"
    by (intro nth_equalityI) simp_all
  have y: "map gridY (cells ?g') = map gridY (cells g)"
    by (intro nth_equalityI) simp_all
  have e: "\<forall>i < length (cells g). \<exists>a b. cells ?g' ! i = (cells g ! i)\<lparr>alive := a, nextAlive := b\<rparr>"
    by auto
  from n x y e show ?thesis
    by (intro exI [of _ ?g']) simp
qed

text \<open>The blinker is populated, so its advance has this frame.\<close>

theorem next_frame_witness:
  "populated blinker \<and>
   (\<exists>g'. next_gen (\<lambda>i. 0) blinker = Some g' \<and> columns g' = columns blinker \<and>
      rows g' = rows blinker \<and> length (cells g') = length (cells blinker) \<and>
      map gridX (cells g') = map gridX (cells blinker) \<and>
      map gridY (cells g') = map gridY (cells blinker) \<and>
      (\<forall>i < length (cells blinker).
         \<exists>a b. cells g' ! i = (cells blinker ! i)\<lparr>alive := a, nextAlive := b\<rparr>))"
proof -
  have p: "populated blinker"
    by (simp add: populated_def blinker_def seeded_def)
  show ?thesis
    using next_frame [OF p, of "\<lambda>i. 0"] p by simp
qed

section \<open>The dead grid\<close>

lemma dead_spec_alive:
  assumes pop: "populated g" and dead: "\<forall>c \<in> set (cells g). alive c = JBool False"
  shows "spec_alive g x y = 0"
proof (cases "0 \<le> x \<and> x < columns g \<and> 0 \<le> y \<and> y < rows g")
  case True
  with pop have "nat (x + y * columns g) < length (cells g)"
    using populated_index(3) [of g x y] by (simp add: gridToIndex_def)
  then have "cells g ! nat (x + y * columns g) \<in> set (cells g)"
    by (rule nth_mem)
  with dead show ?thesis
    by (simp add: spec_alive_def)
next
  case False
  then show ?thesis
    by (auto simp: spec_alive_def)
qed

lemma dead_target:
  assumes pop: "populated g" and dead: "\<forall>c \<in> set (cells g). alive c = JBool False"
  shows "target g i = JBool False"
  by (simp add: target_def spec_neighborAliveCount_def moore_def dead_spec_alive [OF pop dead]
      nextAliveFor_def)

lemma dead_next:
  assumes pop: "populated g" and dead: "\<forall>c \<in> set (cells g). alive c = JBool False"
  shows "\<exists>g'. next_gen rnd g = Some g' \<and> populated g' \<and> (\<forall>c \<in> set (cells g'). alive c = JBool False)"
proof -
  let ?g' = "g\<lparr>cells := map (\<lambda>i. (cells g ! i)\<lparr>alive := target g i, nextAlive := target g i\<rparr>)
                                   [0..<length (cells g)]\<rparr>"
  have n: "next_gen rnd g = Some ?g'"
    using pop by (rule next_gen_populated)
  moreover from pop have "populated ?g'"
    by (simp add: populated_def)
  moreover have "\<forall>c \<in> set (cells ?g'). alive c = JBool False"
    by (auto simp: dead_target [OF pop dead])
  ultimately show ?thesis
    by blast
qed

text \<open>
  C8. From a populated grid of any dimensions in which every cell is dead, any number
  \<open>n\<close> of advances runs without error and ends in a populated grid in which every cell
  is dead.
\<close>

theorem dead_grid_stays_dead:
  assumes pop: "populated g" and dead: "\<forall>c \<in> set (cells g). alive c = JBool False"
  shows "\<exists>g'. advance_n n rnd g = Some g' \<and> populated g' \<and>
           (\<forall>c \<in> set (cells g'). alive c = JBool False)"
  using pop dead
proof (induction n arbitrary: g)
  case 0
  then show ?case by simp
next
  case (Suc n)
  from dead_next [OF Suc.prems] obtain h where h: "next_gen rnd g = Some h"
    and ph: "populated h" and dh: "\<forall>c \<in> set (cells h). alive c = JBool False"
    by blast
  from Suc.IH [OF ph dh] h show ?case
    by simp
qed

text \<open>Five advances of the 2 by 3 dead grid.\<close>

theorem dead_grid_stays_dead_witness:
  "populated dead_grid \<and> list_all (\<lambda>c. alive c = JBool False) (cells dead_grid) \<and>
   (\<exists>g'. advance_n 5 (\<lambda>i. 0) dead_grid = Some g' \<and> populated g' \<and>
      list_all (\<lambda>c. alive c = JBool False) (cells g'))"
proof -
  have p: "populated dead_grid"
    by (simp add: populated_def dead_grid_def seeded_def)
  have d: "\<forall>c \<in> set (cells dead_grid). alive c = JBool False"
    by (simp add: dead_grid_def seeded_def)
  show ?thesis
    using dead_grid_stays_dead [OF p d, of 5 "\<lambda>i. 0"] p d by (simp add: list_all_iff)
qed

section \<open>Two phases against one snapshot\<close>

lemma setNextAlive_keeps_alive:
  assumes "setNextAlive h x y = Some h'"
  shows "map alive (cells h') = map alive (cells h)"
proof -
  from assms obtain n c where c: "array_get (cells h) (gridToIndex h x y) = Some c"
    and h': "h' = h\<lparr>cells := (cells h)[nat (gridToIndex h x y) := c\<lparr>nextAlive := nextAliveFor n (alive c)\<rparr>]\<rparr>"
    by (auto simp: setNextAlive_def split: bind_splits)
  from c have k: "nat (gridToIndex h x y) < length (cells h)"
    and ck: "c = cells h ! nat (gridToIndex h x y)"
    by (auto simp: array_get_def split: if_splits)
  show ?thesis
    unfolding h' using k by (intro nth_equalityI) (auto simp: nth_list_update ck)
qed

lemma row_major_nth:
  assumes rm: "row_major g" and i: "i < length (cells g)"
  shows "gridX (cells g ! i) = int i mod columns g" and "gridY (cells g ! i) = int i div columns g"
proof -
  have "map (\<lambda>c. (gridX c, gridY c)) (cells g) ! i =
          map (\<lambda>i. (int i mod columns g, int i div columns g)) [0..<length (cells g)] ! i"
    using rm by (simp add: row_major_def)
  with i show "gridX (cells g ! i) = int i mod columns g"
    and "gridY (cells g ! i) = int i div columns g"
    by simp_all
qed

lemma spec_advance_target:
  assumes rm: "row_major g"
  shows "cells (spec_advance g) = map (\<lambda>i. (cells g ! i)\<lparr>alive := target g i\<rparr>) [0..<length (cells g)]"
  by (intro nth_equalityI)
    (simp_all add: spec_advance_def target_def spec_rule_def nextAliveFor_def row_major_nth [OF rm])

text \<open>
  C2. On a populated row-major grid one advance is the simultaneous update of the
  specification, \<open>spec_advance\<close>, which reads every neighbour count from the one prior
  grid. The loop body of the compute phase never changes an \<open>alive\<close> field, in any
  grid; the compute phase ends normally with every \<open>alive\<close> field as before and with
  \<open>nextAlive\<close> of every cell equal to the cell's next state under the simultaneous
  update; \<open>next\<close> is that compute phase followed by the commit \<open>applyNextAlive\<close>, and
  its result has the dimensions, coordinates and alive values of \<open>spec_advance\<close>.
\<close>

theorem two_phases_refine_snapshot:
  assumes pop: "populated g" and rm: "row_major g"
  shows "(\<forall>h x y h'. setNextAlive h x y = Some h' \<longrightarrow> map alive (cells h') = map alive (cells h)) \<and>
         (\<exists>g1. updateNextGenCellsAlive_x g 0 = Some g1 \<and>
            map alive (cells g1) = map alive (cells g) \<and>
            map nextAlive (cells g1) = map alive (cells (spec_advance g)) \<and>
            next_gen rnd g = Some (applyNextAlive g1) \<and>
            columns (applyNextAlive g1) = columns (spec_advance g) \<and>
            rows (applyNextAlive g1) = rows (spec_advance g) \<and>
            map (\<lambda>c. (gridX c, gridY c, alive c)) (cells (applyNextAlive g1)) =
              map (\<lambda>c. (gridX c, gridY c, alive c)) (cells (spec_advance g)))"
proof (intro conjI)
  show "\<forall>h x y h'. setNextAlive h x y = Some h' \<longrightarrow> map alive (cells h') = map alive (cells h)"
    using setNextAlive_keeps_alive by blast
next
  let ?g1 = "g\<lparr>cells := map (\<lambda>i. (cells g ! i)\<lparr>nextAlive := target g i\<rparr>) [0..<length (cells g)]\<rparr>"
  have c: "updateNextGenCellsAlive_x g 0 = Some ?g1"
    using pop by (rule compute_phase)
  have a: "map alive (cells ?g1) = map alive (cells g)"
    by (intro nth_equalityI) simp_all
  have n: "map nextAlive (cells ?g1) = map alive (cells (spec_advance g))"
    by (intro nth_equalityI) (simp_all add: spec_advance_target [OF rm])
  have nx: "next_gen rnd g = Some (applyNextAlive ?g1)"
    using populated_nonempty [OF pop] c by (simp add: next_gen_def updateNextGenCellsAlive_def)
  have d: "columns (applyNextAlive ?g1) = columns (spec_advance g)"
    "rows (applyNextAlive ?g1) = rows (spec_advance g)"
    by (simp_all add: applyNextAlive_def spec_advance_def)
  have e: "map (\<lambda>c. (gridX c, gridY c, alive c)) (cells (applyNextAlive ?g1)) =
             map (\<lambda>c. (gridX c, gridY c, alive c)) (cells (spec_advance g))"
    by (intro nth_equalityI) (simp_all add: spec_advance_target [OF rm] applyNextAlive_def)
  from c a n nx d e
  show "\<exists>g1. updateNextGenCellsAlive_x g 0 = Some g1 \<and>
            map alive (cells g1) = map alive (cells g) \<and>
            map nextAlive (cells g1) = map alive (cells (spec_advance g)) \<and>
            next_gen rnd g = Some (applyNextAlive g1) \<and>
            columns (applyNextAlive g1) = columns (spec_advance g) \<and>
            rows (applyNextAlive g1) = rows (spec_advance g) \<and>
            map (\<lambda>c. (gridX c, gridY c, alive c)) (cells (applyNextAlive g1)) =
              map (\<lambda>c. (gridX c, gridY c, alive c)) (cells (spec_advance g))"
    by (intro exI [of _ ?g1] conjI)
qed

text \<open>The seeded blinker is populated and row-major.\<close>

theorem two_phases_refine_snapshot_witness:
  "populated blinker \<and> row_major blinker \<and>
   (\<exists>g1. updateNextGenCellsAlive_x blinker 0 = Some g1 \<and>
      map alive (cells g1) = map alive (cells blinker) \<and>
      map nextAlive (cells g1) = map alive (cells (spec_advance blinker)) \<and>
      next_gen (\<lambda>i. 0) blinker = Some (applyNextAlive g1) \<and>
      columns (applyNextAlive g1) = columns (spec_advance blinker) \<and>
      rows (applyNextAlive g1) = rows (spec_advance blinker) \<and>
      map (\<lambda>c. (gridX c, gridY c, alive c)) (cells (applyNextAlive g1)) =
        map (\<lambda>c. (gridX c, gridY c, alive c)) (cells (spec_advance blinker)))"
proof -
  have p: "populated blinker"
    by (simp add: populated_def blinker_def seeded_def)
  have r: "row_major blinker"
    unfolding blinker_def by code_simp
  show ?thesis
    using two_phases_refine_snapshot [OF p r, of "\<lambda>i. 0"] p r by blast
qed

section \<open>Populating the grid\<close>

lemma createGrid_x_frame:
  "columns (createGrid_x rnd g y x) = columns g \<and> rows (createGrid_x rnd g y x) = rows g"
proof (induction rnd g y x rule: createGrid_x.induct)
  case (1 rnd g y x)
  show ?case
  proof (cases "x < columns g")
    case True
    from "1.IH" [OF True] show ?thesis
      by (subst (1 2) createGrid_x.simps) (simp add: True)
  next
    case False
    then show ?thesis
      by (subst (1 2) createGrid_x.simps) simp
  qed
qed

lemma createGrid_x_cells:
  "cells (createGrid_x rnd g y x) =
     cells g @ map (\<lambda>j. new_Cell (x + int j) y (rnd (length (cells g) + j))) [0..<nat (columns g - x)]"
proof (induction "nat (columns g - x)" arbitrary: g x)
  case 0
  then have "\<not> x < columns g" by simp
  with 0 show ?case
    by (subst createGrid_x.simps) simp
next
  case (Suc n)
  then have lt: "x < columns g" by linarith
  let ?g1 = "g\<lparr>cells := cells g @ [new_Cell x y (rnd (length (cells g)))]\<rparr>"
  from Suc.hyps(2) have n: "n = nat (columns ?g1 - (x + 1))" by simp
  have "cells (createGrid_x rnd ?g1 y (x + 1)) =
          cells ?g1 @ map (\<lambda>j. new_Cell (x + 1 + int j) y (rnd (length (cells ?g1) + j))) [0..<n]"
    using Suc.hyps(1) [OF n] n by simp
  moreover have "nat (columns g - x) = Suc n"
    using Suc.hyps(2) by simp
  ultimately show ?case
    by (subst createGrid_x.simps) (simp add: lt map_upt_Suc add.assoc del: upt_Suc)
qed

lemma createGrid_y_cells:
  assumes "0 \<le> columns g" and "0 \<le> y" and "y \<le> rows g"
    and "cells g = map (\<lambda>i. new_Cell (int i mod columns g) (int i div columns g) (rnd i))
                      [0..<nat (y * columns g)]"
  shows "columns (createGrid_y rnd g y) = columns g \<and> rows (createGrid_y rnd g y) = rows g \<and>
         cells (createGrid_y rnd g y) =
           map (\<lambda>i. new_Cell (int i mod columns g) (int i div columns g) (rnd i))
             [0..<nat (rows g * columns g)]"
  using assms
proof (induction "nat (rows g - y)" arbitrary: g y)
  case 0
  then have "y = rows g" by simp
  with 0 show ?case
    by (subst (1 2 3) createGrid_y.simps) simp
next
  case (Suc n)
  then have lt: "y < rows g" by linarith
  let ?c = "columns g"
  let ?F = "\<lambda>i. new_Cell (int i mod ?c) (int i div ?c) (rnd i)"
  let ?g1 = "createGrid_x rnd g y 0"
  have fr: "columns ?g1 = ?c" "rows ?g1 = rows g"
    using createGrid_x_frame [of rnd g y 0] by simp_all
  have len: "length (cells g) = nat (y * ?c)"
    using Suc.prems(4) by simp
  have a: "nat ((y + 1) * ?c) = nat (y * ?c) + nat ?c"
    using Suc.prems(1,2) by (simp add: algebra_simps nat_add_distrib)
  have row: "map (\<lambda>j. new_Cell (0 + int j) y (rnd (length (cells g) + j))) [0..<nat (?c - 0)] =
             map ?F [nat (y * ?c)..<nat (y * ?c) + nat ?c]"
  proof (intro nth_equalityI)
    show "length (map (\<lambda>j. new_Cell (0 + int j) y (rnd (length (cells g) + j))) [0..<nat (?c - 0)]) =
          length (map ?F [nat (y * ?c)..<nat (y * ?c) + nat ?c])"
      by simp
  next
    fix j
    assume "j < length (map (\<lambda>j. new_Cell (0 + int j) y (rnd (length (cells g) + j))) [0..<nat (?c - 0)])"
    then have j: "int j < ?c" by simp
    have "int (nat (y * ?c) + j) = int j + y * ?c"
      using Suc.prems(1,2) by simp
    then have "int (nat (y * ?c) + j) mod ?c = int j" "int (nat (y * ?c) + j) div ?c = y"
      using j by simp_all
    with j show "map (\<lambda>j. new_Cell (0 + int j) y (rnd (length (cells g) + j))) [0..<nat (?c - 0)] ! j =
          map ?F [nat (y * ?c)..<nat (y * ?c) + nat ?c] ! j"
      by (simp add: len)
  qed
  have "cells ?g1 = cells g @ map ?F [nat (y * ?c)..<nat (y * ?c) + nat ?c]"
    by (simp only: createGrid_x_cells row)
  also have "\<dots> = map ?F [0..<nat (y * ?c)] @ map ?F [nat (y * ?c)..<nat (y * ?c) + nat ?c]"
    using Suc.prems(4) by simp
  also have "\<dots> = map ?F [0..<nat ((y + 1) * ?c)]"
    by (simp only: a map_append [symmetric] upt_add_eq_append [OF le0])
  finally have inv: "cells ?g1 = map (\<lambda>i. new_Cell (int i mod columns ?g1) (int i div columns ?g1) (rnd i))
                      [0..<nat ((y + 1) * columns ?g1)]"
    by (simp add: fr)
  from Suc.hyps(2) have n: "n = nat (rows ?g1 - (y + 1))"
    by (simp add: fr)
  have "columns (createGrid_y rnd ?g1 (y + 1)) = columns ?g1 \<and>
        rows (createGrid_y rnd ?g1 (y + 1)) = rows ?g1 \<and>
        cells (createGrid_y rnd ?g1 (y + 1)) =
          map (\<lambda>i. new_Cell (int i mod columns ?g1) (int i div columns ?g1) (rnd i))
            [0..<nat (rows ?g1 * columns ?g1)]"
    using Suc.prems(1,2) lt inv by (intro Suc.hyps(1) [OF n]) (simp_all add: fr)
  then show ?case
    by (subst (1 2 3) createGrid_y.simps) (simp add: lt fr)
qed

lemma createGrid_empty:
  assumes "0 \<le> columns g" and "0 \<le> rows g" and "cells g = []"
  shows "createGrid rnd g =
           g\<lparr>cells := map (\<lambda>i. new_Cell (int i mod columns g) (int i div columns g) (rnd i))
                          [0..<nat (rows g * columns g)]\<rparr>"
proof -
  have "columns (createGrid_y rnd g 0) = columns g \<and> rows (createGrid_y rnd g 0) = rows g \<and>
        cells (createGrid_y rnd g 0) =
          map (\<lambda>i. new_Cell (int i mod columns g) (int i div columns g) (rnd i))
            [0..<nat (rows g * columns g)]"
    using assms by (intro createGrid_y_cells) simp_all
  then show ?thesis
    by (simp add: createGrid_def)
qed

lemma row_major_order:
  "map (\<lambda>i. (int i mod int m, int i div int m)) [0..<m * n] =
     concat (map (\<lambda>y. map (\<lambda>x. (int x, int y)) [0..<m]) [0..<n])"
proof (induction n)
  case 0
  show ?case by simp
next
  case (Suc n)
  have "map (\<lambda>i. (int i mod int m, int i div int m)) [m * n..<m * n + m] =
          map (\<lambda>x. (int x, int n)) [0..<m]"
  proof (intro nth_equalityI)
    show "length (map (\<lambda>i. (int i mod int m, int i div int m)) [m * n..<m * n + m]) =
          length (map (\<lambda>x. (int x, int n)) [0..<m])"
      by simp
  next
    fix j
    assume "j < length (map (\<lambda>i. (int i mod int m, int i div int m)) [m * n..<m * n + m])"
    then have j: "j < m" by simp
    have "int (m * n + j) = int j + int n * int m"
      by simp
    then have "int (m * n + j) mod int m = int j" "int (m * n + j) div int m = int n"
      using j by simp_all
    with j show "map (\<lambda>i. (int i mod int m, int i div int m)) [m * n..<m * n + m] ! j =
          map (\<lambda>x. (int x, int n)) [0..<m] ! j"
      by simp
  qed
  moreover have "[0..<m * Suc n] = [0..<m * n] @ [m * n..<m * n + m]"
    using upt_add_eq_append [of 0 "m * n" m] by (simp add: add.commute)
  ultimately show ?case
    using Suc.IH by simp
qed

lemma coordinates_once:
  fixes c r :: int
  assumes c: "0 < c" and r: "0 \<le> r"
  shows "distinct (map (\<lambda>i. (int i mod c, int i div c)) [0..<nat (c * r)])"
    and "set (map (\<lambda>i. (int i mod c, int i div c)) [0..<nat (c * r)]) = {0..<c} \<times> {0..<r}"
proof -
  have "inj_on (\<lambda>i. (int i mod c, int i div c)) (set [0..<nat (c * r)])"
  proof (rule inj_onI)
    fix i j
    assume "(int i mod c, int i div c) = (int j mod c, int j div c)"
    then have "int i div c * c + int i mod c = int j div c * c + int j mod c"
      by simp
    then have "int i = int j"
      by (simp only: div_mult_mod_eq)
    then show "i = j" by simp
  qed
  then show "distinct (map (\<lambda>i. (int i mod c, int i div c)) [0..<nat (c * r)])"
    by (simp add: distinct_map)
  show "set (map (\<lambda>i. (int i mod c, int i div c)) [0..<nat (c * r)]) = {0..<c} \<times> {0..<r}"
  proof (intro set_eqI iffI)
    fix p
    assume "p \<in> set (map (\<lambda>i. (int i mod c, int i div c)) [0..<nat (c * r)])"
    then obtain i where i: "i < nat (c * r)" and p: "p = (int i mod c, int i div c)"
      by auto
    from i have "int i < c * r" by simp
    from index_onto(1-4) [OF c this] p show "p \<in> {0..<c} \<times> {0..<r}"
      by simp
  next
    fix p
    assume "p \<in> {0..<c} \<times> {0..<r}"
    then obtain x y where p: "p = (x, y)" and b: "0 \<le> x" "x < c" "0 \<le> y" "y < r"
      by auto
    from index_bounds [OF b] have k: "nat (x + y * c) < nat (c * r)"
      by simp
    have "int (nat (x + y * c)) = x + y * c"
      using index_bounds(1) [OF b] by simp
    then have "(int (nat (x + y * c)) mod c, int (nat (x + y * c)) div c) = p"
      using b p by simp
    with k show "p \<in> set (map (\<lambda>i. (int i mod c, int i div c)) [0..<nat (c * r)])"
      by (auto simp: image_iff intro!: bexI [of _ "nat (x + y * c)"])
  qed
qed

lemma first_next:
  assumes c: "0 < columns g" and r: "0 < rows g" and e: "cells g = []"
  shows "next_gen rnd g =
           Some (g\<lparr>cells := map (\<lambda>i. new_Cell (int i mod columns g) (int i div columns g) (rnd i))
                                  [0..<nat (rows g * columns g)]\<rparr>)"
  using createGrid_empty [of g rnd] c r e by (simp add: next_gen_def)

lemma advance_n_populated:
  assumes "populated g"
  shows "\<exists>h. advance_n n rnd g = Some h \<and> populated h \<and> columns h = columns g \<and> rows h = rows g"
  using assms
proof (induction n arbitrary: g)
  case 0
  then show ?case by simp
next
  case (Suc n)
  let ?g' = "g\<lparr>cells := map (\<lambda>i. (cells g ! i)\<lparr>alive := target g i, nextAlive := target g i\<rparr>)
                                   [0..<length (cells g)]\<rparr>"
  have n: "next_gen rnd g = Some ?g'"
    using Suc.prems by (rule next_gen_populated)
  from Suc.prems have "populated ?g'"
    by (simp add: populated_def)
  from Suc.IH [OF this] n show ?case
    by simp
qed

text \<open>
  C4. A Generation that the constructor returns has no cells. When its dimensions are
  positive, the first call of \<open>next\<close> returns normally, keeps the dimensions and
  fills the array with \<open>columns * rows\<close> cells whose coordinates, in array order, run
  through the rows \<open>y = 0, \<dots>, rows - 1\<close> and within each row through
  \<open>x = 0, \<dots>, columns - 1\<close>; every coordinate pair of the grid occurs exactly once,
  and the cell at index \<open>x + y * columns\<close> carries the coordinates \<open>(x, y)\<close>. After any
  number of further calls the array is still non-empty, so that every later call of
  \<open>next\<close> is the transition \<open>updateNextGenCellsAlive\<close>.
\<close>

theorem first_advance_populates:
  assumes mk: "new_Generation (Some opts) = Some g" and c: "0 < columns g" and r: "0 < rows g"
  shows "cells g = [] \<and>
         (\<exists>g1. next_gen rnd g = Some g1 \<and> columns g1 = columns g \<and> rows g1 = rows g \<and>
            int (length (cells g1)) = columns g * rows g \<and>
            map (\<lambda>c. (gridX c, gridY c)) (cells g1) =
              concat (map (\<lambda>y. map (\<lambda>x. (int x, int y)) [0..<nat (columns g)]) [0..<nat (rows g)]) \<and>
            distinct (map (\<lambda>c. (gridX c, gridY c)) (cells g1)) \<and>
            set (map (\<lambda>c. (gridX c, gridY c)) (cells g1)) = {0..<columns g} \<times> {0..<rows g} \<and>
            (\<forall>x y. 0 \<le> x \<and> x < columns g \<and> 0 \<le> y \<and> y < rows g \<longrightarrow>
               gridX (cells g1 ! nat (gridToIndex g1 x y)) = x \<and>
               gridY (cells g1 ! nat (gridToIndex g1 x y)) = y) \<and>
            (\<forall>n r1 r2. \<exists>h. advance_n n r1 g1 = Some h \<and> cells h \<noteq> [] \<and>
               next_gen r2 h = updateNextGenCellsAlive h))"
proof -
  let ?c = "columns g" and ?r = "rows g"
  let ?F = "\<lambda>i. new_Cell (int i mod ?c) (int i div ?c) (rnd i)"
  let ?g1 = "g\<lparr>cells := map ?F [0..<nat (?r * ?c)]\<rparr>"
  from mk have e: "cells g = []"
    by (auto simp: new_Generation_def)
  have n: "next_gen rnd g = Some ?g1"
    using c r e by (rule first_next)
  have len: "int (length (cells ?g1)) = ?c * ?r"
    using c r by (simp add: mult.commute)
  have co: "map (\<lambda>c. (gridX c, gridY c)) (cells ?g1) =
              map (\<lambda>i. (int i mod ?c, int i div ?c)) [0..<nat (?c * ?r)]"
    by (simp add: new_Cell_def comp_def mult.commute)
  have "map (\<lambda>i. (int i mod int (nat ?c), int i div int (nat ?c))) [0..<nat ?c * nat ?r] =
          concat (map (\<lambda>y. map (\<lambda>x. (int x, int y)) [0..<nat ?c]) [0..<nat ?r])"
    by (rule row_major_order)
  moreover have "nat ?c * nat ?r = nat (?c * ?r)"
    using c r by (simp add: nat_mult_distrib)
  ultimately have order: "map (\<lambda>c. (gridX c, gridY c)) (cells ?g1) =
      concat (map (\<lambda>y. map (\<lambda>x. (int x, int y)) [0..<nat ?c]) [0..<nat ?r])"
    using c co by simp
  have once: "distinct (map (\<lambda>c. (gridX c, gridY c)) (cells ?g1))"
    "set (map (\<lambda>c. (gridX c, gridY c)) (cells ?g1)) = {0..<?c} \<times> {0..<?r}"
    using coordinates_once [of ?c ?r] c r by (simp_all only: co)
  have pop: "populated ?g1"
    using c r len by (simp add: populated_def)
  have at: "\<forall>x y. 0 \<le> x \<and> x < ?c \<and> 0 \<le> y \<and> y < ?r \<longrightarrow>
               gridX (cells ?g1 ! nat (gridToIndex ?g1 x y)) = x \<and>
               gridY (cells ?g1 ! nat (gridToIndex ?g1 x y)) = y"
  proof (intro allI impI)
    fix x y
    assume b: "0 \<le> x \<and> x < ?c \<and> 0 \<le> y \<and> y < ?r"
    then have k: "nat (x + y * ?c) < nat (?r * ?c)" and k0: "0 \<le> x + y * ?c"
      using index_bounds [of x ?c y ?r] by (simp_all add: mult.commute)
    from b have "(x + y * ?c) mod ?c = x" "(x + y * ?c) div ?c = y"
      by simp_all
    with k k0 show "gridX (cells ?g1 ! nat (gridToIndex ?g1 x y)) = x \<and>
               gridY (cells ?g1 ! nat (gridToIndex ?g1 x y)) = y"
      by (simp add: gridToIndex_def new_Cell_def)
  qed
  have later: "\<forall>n r1 r2. \<exists>h. advance_n n r1 ?g1 = Some h \<and> cells h \<noteq> [] \<and>
               next_gen r2 h = updateNextGenCellsAlive h"
  proof (intro allI)
    fix n r1 r2
    from advance_n_populated [OF pop, of n r1] obtain h where h: "advance_n n r1 ?g1 = Some h"
      and ph: "populated h"
      by blast
    from populated_nonempty [OF ph] have "cells h \<noteq> []" "next_gen r2 h = updateNextGenCellsAlive h"
      by (simp_all add: next_gen_def)
    with h show "\<exists>h. advance_n n r1 ?g1 = Some h \<and> cells h \<noteq> [] \<and>
               next_gen r2 h = updateNextGenCellsAlive h"
      by blast
  qed
  from n len order once at later have "\<exists>g1. next_gen rnd g = Some g1 \<and> columns g1 = columns g \<and> rows g1 = rows g \<and>
            int (length (cells g1)) = columns g * rows g \<and>
            map (\<lambda>c. (gridX c, gridY c)) (cells g1) =
              concat (map (\<lambda>y. map (\<lambda>x. (int x, int y)) [0..<nat (columns g)]) [0..<nat (rows g)]) \<and>
            distinct (map (\<lambda>c. (gridX c, gridY c)) (cells g1)) \<and>
            set (map (\<lambda>c. (gridX c, gridY c)) (cells g1)) = {0..<columns g} \<times> {0..<rows g} \<and>
            (\<forall>x y. 0 \<le> x \<and> x < columns g \<and> 0 \<le> y \<and> y < rows g \<longrightarrow>
               gridX (cells g1 ! nat (gridToIndex g1 x y)) = x \<and>
               gridY (cells g1 ! nat (gridToIndex g1 x y)) = y) \<and>
            (\<forall>n r1 r2. \<exists>h. advance_n n r1 g1 = Some h \<and> cells h \<noteq> [] \<and>
               next_gen r2 h = updateNextGenCellsAlive h)"
    by (intro exI [of _ ?g1] conjI) simp_all
  with e show ?thesis
    by blast
qed

text \<open>The first advance of the 3 by 2 grid lays the six cells out row by row.\<close>

theorem first_advance_populates_witness:
  "new_Generation (Some small_options) = Some small_empty \<and>
   0 < columns small_empty \<and> 0 < rows small_empty \<and> cells small_empty = [] \<and>
   (\<exists>g1. next_gen (\<lambda>i. 0) small_empty = Some g1 \<and> length (cells g1) = 6 \<and>
      map (\<lambda>c. (gridX c, gridY c)) (cells g1) = [(0, 0), (1, 0), (2, 0), (0, 1), (1, 1), (2, 1)])"
proof -
  have mk: "new_Generation (Some small_options) = Some small_empty"
    by (simp add: new_Generation_def small_options_def small_empty_def)
  have c: "0 < columns small_empty" and r: "0 < rows small_empty"
    by (simp_all add: small_empty_def)
  note t = first_advance_populates [OF mk c r, of "\<lambda>i. 0"]
  from t have e: "cells small_empty = []"
    by (rule conjunct1)
  from conjunct2 [OF t] obtain g1 where n: "next_gen (\<lambda>i. 0) small_empty = Some g1"
    and len: "int (length (cells g1)) = columns small_empty * rows small_empty"
    and order: "map (\<lambda>c. (gridX c, gridY c)) (cells g1) =
      concat (map (\<lambda>y. map (\<lambda>x. (int x, int y)) [0..<nat (columns small_empty)])
                [0..<nat (rows small_empty)])"
    by (elim exE conjE)
  have "concat (map (\<lambda>y. map (\<lambda>x. (int x, int y)) [0..<nat (columns small_empty)])
                [0..<nat (rows small_empty)]) = [(0, 0), (1, 0), (2, 0), (0, 1), (1, 1), (2, 1)]"
    unfolding small_empty_def by code_simp
  with order have o: "map (\<lambda>c. (gridX c, gridY c)) (cells g1) =
      [(0, 0), (1, 0), (2, 0), (0, 1), (1, 1), (2, 1)]"
    by simp
  from len have l: "length (cells g1) = 6"
    by (simp add: small_empty_def)
  from mk c r e n l o show ?thesis
    by simp
qed

section \<open>Construction\<close>

lemma new_Generation_Some:
  "new_Generation (Some opts) =
     Some \<lparr>columns = assign_if_truthy (opt_columns opts) 50,
           rows = assign_if_truthy (opt_rows opts) 50, cells = []\<rparr>"
  by (simp add: new_Generation_def)

text \<open>
  C10. The constructor returns a Generation for every options object. A \<open>rows\<close> field
  that is absent, \<open>NaN\<close> or 0 leaves \<open>rows\<close> at 50, and a \<open>columns\<close> field that is
  absent, \<open>NaN\<close> or 0 leaves \<open>columns\<close> at 50.
\<close>

theorem constructor_defaults:
  "\<exists>g. new_Generation (Some opts) = Some g \<and>
     (opt_rows opts \<in> {None, Some NaN, Some (Num 0)} \<longrightarrow> rows g = 50) \<and>
     (opt_columns opts \<in> {None, Some NaN, Some (Num 0)} \<longrightarrow> columns g = 50)"
  by (auto simp: new_Generation_Some)

theorem constructor_defaults_witness:
  "opt_rows falsy_options \<in> {None, Some NaN, Some (Num 0)} \<and>
   opt_columns falsy_options \<in> {None, Some NaN, Some (Num 0)} \<and>
   (\<exists>g. new_Generation (Some falsy_options) = Some g \<and> rows g = 50 \<and> columns g = 50)"
proof -
  have r: "opt_rows falsy_options \<in> {None, Some NaN, Some (Num 0)}"
    and c: "opt_columns falsy_options \<in> {None, Some NaN, Some (Num 0)}"
    by (simp_all add: falsy_options_def)
  from constructor_defaults [of falsy_options] r c show ?thesis
    by blast
qed

lemma advance_n_from_empty:
  assumes c: "0 < columns g" and r: "0 < rows g" and e: "cells g = []"
  shows "\<exists>h. advance_n (Suc n) rnd g = Some h \<and> populated h"
proof -
  let ?g1 = "g\<lparr>cells := map (\<lambda>i. new_Cell (int i mod columns g) (int i div columns g) (rnd i))
                                  [0..<nat (rows g * columns g)]\<rparr>"
  have n: "next_gen rnd g = Some ?g1"
    using c r e by (rule first_next)
  have "populated ?g1"
    using c r by (simp add: populated_def mult.commute)
  from advance_n_populated [OF this, of n rnd] n show ?thesis
    by auto
qed

lemma assign_if_truthy_positive:
  assumes "not_negative v" and "0 < d"
  shows "0 < assign_if_truthy v d"
  using assms by (cases "(v, d)" rule: assign_if_truthy.cases) auto

lemma isAlive_returns:
  assumes "populated g"
  shows "\<exists>a. isAlive g x y = Some a"
  by (simp add: isAlive_populated [OF assms])

text \<open>
  C5 as stated fails twice. Construction with an absent \<open>rows\<close> and \<open>columns\<close> 0
  raises no error and returns the 50 by 50 Generation. And on the Generation just
  constructed with the valid dimensions 3 by 2, whose array is still empty, the
  neighbour lookup \<open>isAlive\<close> at \<open>(0, 0)\<close> throws.
\<close>

theorem construction_raises_no_error:
  "new_Generation (Some \<lparr>opt_rows = None, opt_columns = Some (Num 0)\<rparr>) =
     Some \<lparr>columns = 50, rows = 50, cells = []\<rparr> \<and>
   new_Generation (Some \<lparr>opt_rows = Some (Num 2), opt_columns = Some (Num 3)\<rparr>) =
     Some \<lparr>columns = 3, rows = 2, cells = []\<rparr> \<and>
   isAlive \<lparr>columns = 3, rows = 2, cells = []\<rparr> 0 0 = None"
  by (simp add: new_Generation_def isAlive_def array_get_def gridToIndex_def)

text \<open>
  C5, amended. When no dimension of the options is negative, construction raises no
  error and yields a Generation without cells and with positive dimensions: an absent or
  zero dimension falls back to 50, and a positive dimension is taken as given. From
  that Generation any number of advances runs without error, and on the grid reached by
  one or more advances the neighbour lookup \<open>isAlive\<close> and the neighbour count of
  every position, inside or outside the grid, return without error.
\<close>

theorem construction_falls_back:
  assumes nr: "not_negative (opt_rows opts)" and nc: "not_negative (opt_columns opts)"
  shows "\<exists>g. new_Generation (Some opts) = Some g \<and> cells g = [] \<and>
           0 < columns g \<and> 0 < rows g \<and>
           (opt_rows opts \<in> {None, Some (Num 0)} \<longrightarrow> rows g = 50) \<and>
           (opt_columns opts \<in> {None, Some (Num 0)} \<longrightarrow> columns g = 50) \<and>
           (\<forall>r. 0 < r \<and> opt_rows opts = Some (Num r) \<longrightarrow> rows g = r) \<and>
           (\<forall>c. 0 < c \<and> opt_columns opts = Some (Num c) \<longrightarrow> columns g = c) \<and>
           (\<forall>n. \<exists>h. advance_n n rnd g = Some h) \<and>
           (\<forall>n x y. \<exists>h a k. advance_n (Suc n) rnd g = Some h \<and>
              isAlive h x y = Some a \<and> countAlive h x y = Some k)"
proof -
  let ?g = "\<lparr>columns = assign_if_truthy (opt_columns opts) 50,
             rows = assign_if_truthy (opt_rows opts) 50, cells = []\<rparr>"
  have mk: "new_Generation (Some opts) = Some ?g"
    by (rule new_Generation_Some)
  have c: "0 < columns ?g" and r: "0 < rows ?g"
    using nr nc by (simp_all add: assign_if_truthy_positive)
  have dr: "opt_rows opts \<in> {None, Some (Num 0)} \<longrightarrow> rows ?g = 50"
    and dc: "opt_columns opts \<in> {None, Some (Num 0)} \<longrightarrow> columns ?g = 50"
    and pr: "\<forall>r. 0 < r \<and> opt_rows opts = Some (Num r) \<longrightarrow> rows ?g = r"
    and pc: "\<forall>c. 0 < c \<and> opt_columns opts = Some (Num c) \<longrightarrow> columns ?g = c"
    by auto
  have later: "\<exists>h. advance_n (Suc n) rnd ?g = Some h \<and> populated h" for n
    using c r by (intro advance_n_from_empty) simp_all
  have run: "\<forall>n. \<exists>h. advance_n n rnd ?g = Some h"
  proof
    fix n
    show "\<exists>h. advance_n n rnd ?g = Some h"
    proof (cases n)
      case 0
      then show ?thesis by simp
    next
      case (Suc m)
      with later [of m] show ?thesis by blast
    qed
  qed
  have look: "\<forall>n x y. \<exists>h a k. advance_n (Suc n) rnd ?g = Some h \<and>
      isAlive h x y = Some a \<and> countAlive h x y = Some k"
  proof (intro allI)
    fix n x y
    from later [of n] obtain h where h: "advance_n (Suc n) rnd ?g = Some h" and p: "populated h"
      by blast
    from isAlive_returns [OF p, of x y] obtain a where a: "isAlive h x y = Some a"
      by blast
    from countAlive_populated [OF p, of x y] h a
    show "\<exists>h a k. advance_n (Suc n) rnd ?g = Some h \<and>
      isAlive h x y = Some a \<and> countAlive h x y = Some k"
      by blast
  qed
  have e: "cells ?g = []"
    by simp
  from mk e c r dr dc pr pc run look show ?thesis
    by (intro exI [of _ ?g] conjI)
qed

text \<open>Options without \<open>rows\<close> and with \<open>columns\<close> 0: the 50 by 50 grid and three advances.\<close>

theorem construction_falls_back_witness:
  "not_negative (opt_rows falsy_options) \<and> not_negative (opt_columns falsy_options) \<and>
   new_Generation (Some falsy_options) = Some \<lparr>columns = 50, rows = 50, cells = []\<rparr> \<and>
   (\<exists>h a k. advance_n 3 (\<lambda>i. 0) \<lparr>columns = 50, rows = 50, cells = []\<rparr> = Some h \<and>
      isAlive h 0 0 = Some a \<and> countAlive h 0 0 = Some k)"
proof -
  have nr: "not_negative (opt_rows falsy_options)" and nc: "not_negative (opt_columns falsy_options)"
    by (simp_all add: falsy_options_def)
  have mk: "new_Generation (Some falsy_options) = Some \<lparr>columns = 50, rows = 50, cells = []\<rparr>"
    by (simp add: new_Generation_def falsy_options_def)
  from construction_falls_back [OF nr nc, of "\<lambda>i. 0"]
  obtain g where g: "new_Generation (Some falsy_options) = Some g"
    and look: "\<forall>n x y. \<exists>h a k. advance_n (Suc n) (\<lambda>i. 0) g = Some h \<and>
              isAlive h x y = Some a \<and> countAlive h x y = Some k"
    by (elim exE conjE)
  from g mk have eq: "g = \<lparr>columns = 50, rows = 50, cells = []\<rparr>"
    by simp
  from look have "\<exists>h a k. advance_n (Suc 2) (\<lambda>i. 0) g = Some h \<and>
              isAlive h 0 0 = Some a \<and> countAlive h 0 0 = Some k"
    by (elim allE)
  moreover have "Suc 2 = 3"
    by simp
  ultimately have l: "\<exists>h a k. advance_n 3 (\<lambda>i. 0) g = Some h \<and>
              isAlive h 0 0 = Some a \<and> countAlive h 0 0 = Some k"
    by (simp only:)
  from nr nc mk l [unfolded eq] show ?thesis
    by (intro conjI)
qed

section \<open>The neighbour count\<close>









end
